theory Spec2Isabelle
  imports Main "HOL-Library.Sublist" "HOL-Library.Product_Lexorder"
begin

section \<open>Strings and truthiness\<close>

text \<open>
  A Python \<open>str\<close> is modelled as a \<open>string\<close> (a list of characters): every operation
  the menu code applies to strings (\<open>startswith\<close>, \<open>endswith\<close>, \<open>len\<close>, \<open>+\<close>, \<open>==\<close>)
  treats the string as a sequence of equal-comparable elements.
\<close>

definition startswith :: "string \<Rightarrow> string \<Rightarrow> bool" where
  "startswith s p = prefix p s"

definition endswith :: "string \<Rightarrow> string \<Rightarrow> bool" where
  "endswith s p = suffix p s"

text \<open>
  Python truthiness, as used by \<open>if named:\<close>, \<open>raw or "#"\<close>, \<open>if it["parent_id"]\<close>,
  \<open>if active_id:\<close> and \<open>while cur:\<close>. \<open>None\<close>, the empty string and the integer 0 are false.
\<close>

fun truthy_str :: "string option \<Rightarrow> bool" where
  "truthy_str None = False"
| "truthy_str (Some s) = (s \<noteq> [])"

fun truthy_id :: "int option \<Rightarrow> bool" where
  "truthy_id None = False"
| "truthy_id (Some i) = (i \<noteq> 0)"

section \<open>Path normalisation and URL resolution\<close>

text \<open>\<open>_normalize_path\<close> of \<open>tree_menu_tags.py\<close> (lines 22 to 36).\<close>

definition normalize_path :: "string \<Rightarrow> string" where
  "normalize_path path =
     (if path = [] then ''/''
      else if startswith path ''http://'' \<or> startswith path ''https://'' \<or> startswith path ''#''
        then path
      else
        let path1 = (if \<not> startswith path ''/'' then ''/'' @ path else path);
            path2 = (if path1 \<noteq> ''/'' \<and> \<not> endswith path1 ''/'' then path1 @ ''/'' else path1)
        in path2)"

text \<open>
  \<open>_resolve_url\<close> (lines 38 to 45). Django's route resolver is an external collaborator
  and is a parameter: \<open>reverse name = None\<close> stands for \<open>NoReverseMatch\<close>, which the
  code catches.
\<close>

type_synonym resolver = "string \<rightharpoonup> string"

definition resolve_url :: "resolver \<Rightarrow> string option \<Rightarrow> string option \<Rightarrow> string" where
  "resolve_url reverse named raw =
     (if truthy_str named then
        (case reverse (the named) of Some u \<Rightarrow> u | None \<Rightarrow> ''#'')
      else if truthy_str raw then the raw else ''#'')"

text \<open>The route table of \<open>treeproject/urls.py\<close>, as \<open>reverse\<close> sees the named routes.\<close>

definition urlpatterns :: "(string \<times> string) list" where
  "urlpatterns =
     [(''index'', ''/''),
      (''about'', ''/about/''),
      (''blog'', ''/blog/''),
      (''blog_categories'', ''/blog/categories/''),
      (''blog_category_1'', ''/blog/categories/1/''),
      (''blog_category_2'', ''/blog/categories/2/''),
      (''blog_category_3'', ''/blog/categories/3/'')]"

definition project_reverse :: resolver where
  "project_reverse = map_of urlpatterns"

section \<open>Rows, entries and the view model\<close>

text \<open>
  One dictionary of \<open>.values("id", "parent_id", "title", "url", "named_url", "sort_order")\<close>.
  The key \<open>id\<close> is the field \<open>item_id\<close> here (\<open>id\<close> is the identity function of HOL).
  \<open>url\<close> and \<open>named_url\<close> admit \<open>None\<close>, as the signature of \<open>_resolve_url\<close> does.
\<close>

record item =
  item_id :: int
  parent_id :: "int option"
  title :: string
  url :: "string option"
  named_url :: "string option"
  sort_order :: int

text \<open>The same dictionary after the loop of lines 77 to 79 has added two keys.\<close>

record ritem = item +
  resolved_url :: string
  norm_url :: string

definition annotate :: "resolver \<Rightarrow> item \<Rightarrow> ritem" where
  "annotate reverse it =
     (let r = resolve_url reverse (named_url it) (url it) in
      \<lparr>item_id = item_id it, parent_id = parent_id it, title = title it, url = url it,
       named_url = named_url it, sort_order = sort_order it,
       resolved_url = r, norm_url = normalize_path r\<rparr>)"

record http_request =
  path :: string

record menu_context =
  menu_name :: string
  items_by_id :: "int \<rightharpoonup> ritem"
  root_items :: "ritem list"
  children_map :: "int \<rightharpoonup> int list"
  active_id :: "int option"
  expanded_ids :: "int set"
  request :: "http_request option"

datatype error = KeyError

section \<open>The steps of \<open>draw_menu\<close> over the fetched rows\<close>

text \<open>Line 81: \<open>by_id = {it["id"]: it for it in items}\<close>; a later row replaces an earlier one.\<close>

definition by_id_of :: "ritem list \<Rightarrow> (int \<rightharpoonup> ritem)" where
  "by_id_of items = fold (\<lambda>it m. m(item_id it \<mapsto> it)) items Map.empty"

text \<open>
  Lines 82 to 87: one pass that appends the id to the children list of its parent when
  \<open>parent_id\<close> is truthy, to \<open>roots\<close> otherwise. \<open>children\<close> is a \<open>defaultdict(list)\<close>:
  a missing key reads as the empty list.
\<close>

definition partition_step ::
  "ritem \<Rightarrow> (int \<rightharpoonup> int list) \<times> int list \<Rightarrow> (int \<rightharpoonup> int list) \<times> int list" where
  "partition_step it = (\<lambda>(children, roots).
     if truthy_id (parent_id it) then
       (let p = the (parent_id it);
            old = (case children p of None \<Rightarrow> [] | Some cs \<Rightarrow> cs)
        in (children(p \<mapsto> old @ [item_id it]), roots))
     else (children, roots @ [item_id it]))"

text \<open>Lines 90 to 105: the loop state is \<open>(active_id, max_len)\<close>.\<close>

definition active_step :: "string \<Rightarrow> ritem \<Rightarrow> int option \<times> nat \<Rightarrow> int option \<times> nat" where
  "active_step current_path it = (\<lambda>(active_id, max_len).
     if \<not> startswith (norm_url it) ''/'' then (active_id, max_len)
     else if norm_url it = ''/'' \<and> current_path \<noteq> ''/'' then (active_id, max_len)
     else if startswith current_path (norm_url it) then
       (let current_len = length (norm_url it) in
        if current_len > max_len then (Some (item_id it), current_len)
        else (active_id, max_len))
     else (active_id, max_len))"

text \<open>
  Lines 111 to 113: \<open>while cur: expanded.add(cur); cur = by_id[cur]["parent_id"]\<close>.
  The loop has no bound, so it is a partial function: \<open>None\<close> means that it does not
  return. \<open>by_id[cur]\<close> raises \<open>KeyError\<close> for a missing key.
\<close>

partial_function (option) walk_up ::
  "(int \<rightharpoonup> ritem) \<Rightarrow> int option \<Rightarrow> int set \<Rightarrow> (error + int set) option" where
  "walk_up by_id cur expanded =
     (if truthy_id cur then
        (case by_id (the cur) of
           None \<Rightarrow> Some (Inl KeyError)
         | Some it \<Rightarrow> walk_up by_id (parent_id it) (insert (the cur) expanded))
      else Some (Inr expanded))"

declare walk_up.simps [code]

text \<open>Line 119: \<open>[by_id[rid] for rid in roots]\<close>.\<close>

fun lookup_all :: "(int \<rightharpoonup> ritem) \<Rightarrow> int list \<Rightarrow> error + ritem list" where
  "lookup_all by_id [] = Inr []"
| "lookup_all by_id (rid # rids) =
     (case by_id rid of
        None \<Rightarrow> Inl KeyError
      | Some it \<Rightarrow> (case lookup_all by_id rids of Inl e \<Rightarrow> Inl e | Inr its \<Rightarrow> Inr (it # its)))"

text \<open>
  Lines 76 to 124 of \<open>draw_menu\<close>: from the fetched rows to the dictionary
  \<open>menu_context\<close> that is handed to the template. The outer \<open>option\<close> is \<open>None\<close> when
  the walk of lines 111 to 113 does not return; \<open>Inl\<close> is a raised exception.
\<close>

definition build_context ::
  "resolver \<Rightarrow> string \<Rightarrow> http_request option \<Rightarrow> string \<Rightarrow> item list
     \<Rightarrow> (error + menu_context) option" where
  "build_context reverse name req current_path rows =
     (let items = map (annotate reverse) rows;
          by_id = by_id_of items;
          (children, roots) = fold partition_step items (Map.empty, []);
          (active, max_len) = fold (active_step current_path) items (None, 0)
      in case (if truthy_id active then walk_up by_id active {} else Some (Inr {})) of
           None \<Rightarrow> None
         | Some (Inl e) \<Rightarrow> Some (Inl e)
         | Some (Inr expanded) \<Rightarrow>
             (case lookup_all by_id roots of
                Inl e \<Rightarrow> Some (Inl e)
              | Inr rts \<Rightarrow>
                  Some (Inr \<lparr>menu_name = name, items_by_id = by_id, root_items = rts,
                             children_map = children, active_id = active,
                             expanded_ids = expanded, request = req\<rparr>)))"

section \<open>The entry store and \<open>draw_menu\<close>\<close>

text \<open>
  The tables of \<open>models.py\<close>. \<open>queries\<close> counts the read operations issued against the
  store, as \<open>assertNumQueries\<close> of the tests does.
\<close>

record menu =
  menu_pk :: int
  name :: string
  menu_title :: string

record menu_item = item +
  menu_id :: int

record database =
  menus :: "menu list"
  menu_items :: "menu_item list"
  queries :: nat

definition values_row :: "menu_item \<Rightarrow> item" where
  "values_row r =
     \<lparr>item_id = item_id r, parent_id = parent_id r, title = title r, url = url r,
      named_url = named_url r, sort_order = sort_order r\<rparr>"

definition sort_key_of :: "'a item_scheme \<Rightarrow> int \<times> int" where
  "sort_key_of it = (sort_order it, item_id it)"

text \<open>
  Lines 68 to 72: \<open>MenuItem.objects.filter(menu__name=menu_name).values(...)
  .order_by("sort_order", "id")\<close>, evaluated once by \<open>list\<close>.
\<close>

definition fetch_items :: "database \<Rightarrow> string \<Rightarrow> item list \<times> database" where
  "fetch_items db mname =
     (sort_key sort_key_of
        (map values_row
           (filter (\<lambda>r. list_ex (\<lambda>m. menu_pk m = menu_id r \<and> name m = mname) (menus db))
              (menu_items db))),
      db\<lparr>queries := queries db + 1\<rparr>)"

text \<open>
  \<open>draw_menu\<close> (lines 47 to 126). The template \<open>tree_menu/menu.html\<close> is a parameter,
  \<open>render_to_string\<close>, a function of the dictionary it receives. The context argument is
  the value of \<open>context.get("request")\<close>; a request without a path reads as \<open>"/"\<close>.
\<close>

definition draw_menu ::
  "resolver \<Rightarrow> (menu_context \<Rightarrow> string) \<Rightarrow> database \<Rightarrow> http_request option \<Rightarrow> string
     \<Rightarrow> ((error + string) \<times> database) option" where
  "draw_menu reverse render_to_string db req mname =
     (let current_path = normalize_path (case req of None \<Rightarrow> ''/'' | Some r \<Rightarrow> path r);
          (items, db') = fetch_items db mname
      in if items = [] then Some (Inr [], db')
         else (case build_context reverse mname req current_path items of
                 None \<Rightarrow> None
               | Some (Inl e) \<Rightarrow> Some (Inl e, db')
               | Some (Inr mc) \<Rightarrow> Some (Inr (render_to_string mc), db')))"

section \<open>Notions of the specification\<close>

text \<open>
  An entry matches the current path when its normalised URL is an absolute path and a
  prefix of the current path; the bare root matches the root path only.
\<close>

definition matches :: "string \<Rightarrow> ritem \<Rightarrow> bool" where
  "matches current_path it \<longleftrightarrow>
     prefix ''/'' (norm_url it) \<and> prefix (norm_url it) current_path \<and>
     (norm_url it = ''/'' \<longrightarrow> current_path = ''/'')"

definition longest_match :: "string \<Rightarrow> ritem list \<Rightarrow> ritem \<Rightarrow> bool" where
  "longest_match current_path items it \<longleftrightarrow>
     matches current_path it \<and>
     (\<forall>jt \<in> set items. matches current_path jt \<longrightarrow> length (norm_url jt) \<le> length (norm_url it))"

text \<open>The id of the first entry, in the order of the list, that is a longest match.\<close>

definition spec_active_id :: "string \<Rightarrow> ritem list \<Rightarrow> int option" where
  "spec_active_id current_path items =
     (case filter (longest_match current_path items) items of
        [] \<Rightarrow> None
      | it # _ \<Rightarrow> Some (item_id it))"

text \<open>
  The parent relation among the entries of an id lookup: \<open>(c, p)\<close> when the entry with
  id \<open>c\<close> names \<open>p\<close> as its parent and \<open>p\<close> is the id of an entry. An entry's ancestors
  are what the reflexive transitive closure reaches.
\<close>

definition parent_rel :: "(int \<rightharpoonup> ritem) \<Rightarrow> (int \<times> int) set" where
  "parent_rel by_id = {(c, p). \<exists>it. by_id c = Some it \<and> parent_id it = Some p \<and> p \<in> dom by_id}"

definition self_and_ancestors :: "(int \<rightharpoonup> ritem) \<Rightarrow> int \<Rightarrow> int set" where
  "self_and_ancestors by_id a = (parent_rel by_id)\<^sup>* `` {a}"

text \<open>
  Well-formed parent references of a list of rows: every reference that is neither
  \<open>None\<close> nor 0 names a row of the list, and no row is its own ancestor.
\<close>

definition parents_resolve :: "item list \<Rightarrow> bool" where
  "parents_resolve rows \<longleftrightarrow>
     (\<forall>it \<in> set rows.
        case parent_id it of None \<Rightarrow> True | Some p \<Rightarrow> p = 0 \<or> p \<in> item_id ` set rows)"

definition parent_edges :: "item list \<Rightarrow> (int \<times> int) set" where
  "parent_edges rows =
     (\<Union>it \<in> set rows.
        case parent_id it of None \<Rightarrow> {} | Some p \<Rightarrow> if p = 0 then {} else {(item_id it, p)})"

definition is_root :: "ritem \<Rightarrow> bool" where
  "is_root it \<longleftrightarrow> \<not> truthy_id (parent_id it)"

definition is_child_of :: "int \<Rightarrow> ritem \<Rightarrow> bool" where
  "is_child_of p it \<longleftrightarrow> p \<noteq> 0 \<and> parent_id it = Some p"

section \<open>Example data\<close>

text \<open>
  The two menus that \<open>DrawMenuIntegrationTests.setUpTestData\<close> of \<open>tests.py\<close> creates,
  and a third menu that owns no entries.
\<close>

definition mk_item ::
  "int \<Rightarrow> int \<Rightarrow> int option \<Rightarrow> string \<Rightarrow> string \<Rightarrow> string \<Rightarrow> int \<Rightarrow> menu_item" where
  "mk_item i m p t u n s =
     \<lparr>item_id = i, parent_id = p, title = t, url = Some u, named_url = Some n,
      sort_order = s, menu_id = m\<rparr>"

definition test_db :: database where
  "test_db =
     \<lparr>menus = [\<lparr>menu_pk = 1, name = ''main_menu'', menu_title = ''Main''\<rparr>,
               \<lparr>menu_pk = 2, name = ''footer_menu'', menu_title = []\<rparr>,
               \<lparr>menu_pk = 3, name = ''empty_menu'', menu_title = []\<rparr>],
      menu_items =
        [mk_item 1 1 None ''Home'' [] ''index'' 10,
         mk_item 2 1 None ''Blog'' [] ''blog'' 20,
         mk_item 3 1 None ''About'' [] ''about'' 40,
         mk_item 4 1 None ''External'' ''http://example.com'' [] 50,
         mk_item 5 1 (Some 2) ''Categories'' [] ''blog_categories'' 1,
         mk_item 6 1 (Some 5) ''Category 1'' ''/blog/categories/1/'' [] 1,
         mk_item 7 2 None ''Footer Link'' ''/footer'' [] 0],
      queries = 0\<rparr>"

definition test_rows :: "item list" where
  "test_rows = fst (fetch_items test_db ''main_menu'')"

definition leaf_request :: "http_request option" where
  "leaf_request = Some \<lparr>path = ''/blog/categories/1/''\<rparr>"

text \<open>A template that prints the title of the active entry, or \<open>-\<close>.\<close>

definition show_active :: "menu_context \<Rightarrow> string" where
  "show_active mc =
     (case active_id mc of
        None \<Rightarrow> ''-''
      | Some i \<Rightarrow> (case items_by_id mc i of None \<Rightarrow> ''?'' | Some it \<Rightarrow> title it))"

text \<open>Reading the outcome of \<open>build_context\<close>.\<close>

definition returns_context :: "(error + menu_context) option \<Rightarrow> bool" where
  "returns_context r = (case r of Some (Inr mc) \<Rightarrow> True | _ \<Rightarrow> False)"

definition the_context :: "(error + menu_context) option \<Rightarrow> menu_context" where
  "the_context r = projr (the r)"

definition leaf_result :: "(error + menu_context) option" where
  "leaf_result =
     build_context project_reverse ''main_menu'' leaf_request ''/blog/categories/1/'' test_rows"

text \<open>
  Rows in ascending (sort key, id) order with two entries of the same URL and with
  several siblings under one parent.
\<close>

definition row :: "int \<Rightarrow> int \<Rightarrow> int option \<Rightarrow> string \<Rightarrow> item" where
  "row s i p u =
     \<lparr>item_id = i, parent_id = p, title = ''entry'', url = Some u, named_url = Some [],
      sort_order = s\<rparr>"

definition tie_rows :: "item list" where
  "tie_rows =
     [row 0 1 None ''/blog/'',
      row 0 2 None ''/blog/'',
      row 1 5 (Some 1) ''/blog/x/'',
      row 1 6 (Some 1) ''/blog/z/'',
      row 2 3 None ''/'',
      row 2 4 (Some 1) ''http://e'']"

definition tie_result :: "(error + menu_context) option" where
  "tie_result = build_context project_reverse ''main'' None ''/blog/y/'' tie_rows"

text \<open>
  Stores outside the write-time invariants, which \<open>MenuItem.objects.create\<close> does not
  check: an entry with primary key 0, an entry whose parent belongs to another menu,
  and an entry that is its own parent.
\<close>

definition two_menus :: "menu list" where
  "two_menus = [\<lparr>menu_pk = 1, name = ''main'', menu_title = []\<rparr>,
                \<lparr>menu_pk = 2, name = ''other'', menu_title = []\<rparr>]"

definition zero_rows :: "item list" where
  "zero_rows =
     [\<lparr>item_id = 0, parent_id = None, title = ''Zero'', url = Some ''/a/'', named_url = Some [],
       sort_order = 0\<rparr>]"

definition dangling_db :: database where
  "dangling_db =
     \<lparr>menus = two_menus,
      menu_items = [mk_item 1 1 (Some 7) ''Child'' ''/a/'' [] 0,
                    mk_item 7 2 None ''Elsewhere'' ''/b/'' [] 0],
      queries = 0\<rparr>"

definition loop_db :: database where
  "loop_db =
     \<lparr>menus = two_menus,
      menu_items = [mk_item 1 1 (Some 1) ''Self'' ''/a/'' [] 0],
      queries = 0\<rparr>"

definition request_a :: "http_request option" where
  "request_a = Some \<lparr>path = ''/a/''\<rparr>"

definition zero_result :: "(error + menu_context) option" where
  "zero_result = build_context project_reverse ''main'' request_a ''/a/'' zero_rows"

section \<open>Path normalisation\<close>

lemma normalize_path_fixed:
  assumes "startswith r ''/''" "endswith r ''/''"
  shows "normalize_path r = r"
proof -
  from assms(1) obtain t where r: "r = CHR ''/'' # t"
    by (auto simp: startswith_def prefix_def)
  show ?thesis
    using assms(2) by (simp add: r normalize_path_def startswith_def)
qed

lemma normalize_path_shape:
  assumes "p \<noteq> []" "\<not> startswith p ''http://''" "\<not> startswith p ''https://''" "\<not> startswith p ''#''"
  shows "startswith (normalize_path p) ''/'' \<and> endswith (normalize_path p) ''/''"
  using assms
  by (auto simp: normalize_path_def startswith_def endswith_def Let_def suffix_def prefix_def)

lemma normalize_path_examples:
  "normalize_path '''' = ''/''"
  "normalize_path ''/a'' = ''/a/''"
  "normalize_path ''/a/'' = ''/a/''"
  "normalize_path ''#x'' = ''#x''"
  "normalize_path ''http://h'' = ''http://h''"
  by (simp_all add: normalize_path_def startswith_def endswith_def suffix_to_prefix)

text \<open>
  Claim C5. \<open>_normalize_path\<close> maps the empty string to \<open>"/"\<close>, returns a string that
  starts with \<open>"http://"\<close>, \<open>"https://"\<close> or \<open>"#"\<close> unchanged, and otherwise returns a
  string that starts with \<open>"/"\<close> and, unless it is the bare root, ends with \<open>"/"\<close>; the
  five examples of the specification evaluate as stated.
\<close>

theorem normalize_path_spec:
  "normalize_path [] = ''/'' \<and>
   (startswith p ''http://'' \<or> startswith p ''https://'' \<or> startswith p ''#''
      \<longrightarrow> normalize_path p = p) \<and>
   (p \<noteq> [] \<and> \<not> startswith p ''http://'' \<and> \<not> startswith p ''https://'' \<and> \<not> startswith p ''#''
      \<longrightarrow> startswith (normalize_path p) ''/'' \<and>
          (normalize_path p \<noteq> ''/'' \<longrightarrow> endswith (normalize_path p) ''/'')) \<and>
   normalize_path ''/a'' = ''/a/'' \<and>
   normalize_path ''/a/'' = ''/a/'' \<and>
   normalize_path ''#x'' = ''#x'' \<and>
   normalize_path ''http://h'' = ''http://h''"
proof -
  have scheme: "startswith p ''http://'' \<or> startswith p ''https://'' \<or> startswith p ''#''
      \<longrightarrow> normalize_path p = p"
    by (auto simp: normalize_path_def startswith_def)
  show ?thesis
    using scheme normalize_path_shape [of p] normalize_path_examples by blast
qed

theorem normalize_path_spec_witness:
  "startswith ''https://h/x'' ''https://'' \<and> normalize_path ''https://h/x'' = ''https://h/x'' \<and>
   ''blog/categories'' \<noteq> [] \<and> \<not> startswith ''blog/categories'' ''http://'' \<and>
   \<not> startswith ''blog/categories'' ''https://'' \<and> \<not> startswith ''blog/categories'' ''#'' \<and>
   normalize_path ''blog/categories'' \<noteq> ''/'' \<and>
   startswith (normalize_path ''blog/categories'') ''/'' \<and>
   endswith (normalize_path ''blog/categories'') ''/''"
proof -
  have a: "startswith ''https://h/x'' ''https://''"
    by (simp add: startswith_def)
  have b: "''blog/categories'' \<noteq> [] \<and> \<not> startswith ''blog/categories'' ''http://'' \<and>
     \<not> startswith ''blog/categories'' ''https://'' \<and> \<not> startswith ''blog/categories'' ''#''"
    by (simp add: startswith_def)
  have c: "normalize_path ''blog/categories'' \<noteq> ''/''"
    by (simp add: normalize_path_def startswith_def endswith_def suffix_to_prefix)
  from a normalize_path_spec [of "''https://h/x''"]
  have 1: "normalize_path ''https://h/x'' = ''https://h/x''" by blast
  from b c normalize_path_spec [of "''blog/categories''"]
  have 2: "startswith (normalize_path ''blog/categories'') ''/'' \<and>
     endswith (normalize_path ''blog/categories'') ''/''" by blast
  from a b c 1 2 show ?thesis by blast
qed

text \<open>
  Claim C6. Path normalisation is idempotent, for every input string.
\<close>

theorem normalize_path_idempotent: "normalize_path (normalize_path p) = normalize_path p"
proof (cases "p = [] \<or> startswith p ''http://'' \<or> startswith p ''https://'' \<or> startswith p ''#''")
  case True
  then show ?thesis
    by (auto simp: normalize_path_def startswith_def endswith_def)
next
  case False
  then have "startswith (normalize_path p) ''/'' \<and> endswith (normalize_path p) ''/''"
    using normalize_path_shape by blast
  then show ?thesis
    by (simp add: normalize_path_fixed)
qed

section \<open>URL resolution\<close>

lemma resolved_url_annotate [simp]:
  "resolved_url (annotate reverse it) = resolve_url reverse (named_url it) (url it)"
  by (simp add: annotate_def Let_def)

text \<open>
  Claim C7. \<open>_resolve_url\<close> returns the resolver's path for a named route that resolves,
  \<open>"#"\<close> for a named route that does not, the raw URL when only the raw URL is
  populated, and \<open>"#"\<close> when neither is. It is a total function, and the resolved URL of
  each entry of a list is computed from that entry alone, wherever it stands in the list.
\<close>

theorem resolve_url_spec:
  "(n \<noteq> [] \<and> reverse n = Some u \<longrightarrow> resolve_url reverse (Some n) raw = u) \<and>
   (n \<noteq> [] \<and> reverse n = None \<longrightarrow> resolve_url reverse (Some n) raw = ''#'') \<and>
   (\<not> truthy_str named \<and> r \<noteq> [] \<longrightarrow> resolve_url reverse named (Some r) = r) \<and>
   (\<not> truthy_str named \<and> \<not> truthy_str raw \<longrightarrow> resolve_url reverse named raw = ''#'') \<and>
   map resolved_url (map (annotate reverse) (xs @ it # ys)) =
     map resolved_url (map (annotate reverse) xs) @
     resolve_url reverse (named_url it) (url it) #
     map resolved_url (map (annotate reverse) ys)"
  by (simp add: resolve_url_def)

theorem resolve_url_spec_witness:
  "''about'' \<noteq> [] \<and> project_reverse ''about'' = Some ''/about/'' \<and>
   resolve_url project_reverse (Some ''about'') (Some ''/ignored/path'') = ''/about/'' \<and>
   ''non_existent_name'' \<noteq> [] \<and> project_reverse ''non_existent_name'' = None \<and>
   resolve_url project_reverse (Some ''non_existent_name'') None = ''#'' \<and>
   \<not> truthy_str None \<and> ''/raw/path/'' \<noteq> [] \<and>
   resolve_url project_reverse None (Some ''/raw/path/'') = ''/raw/path/'' \<and>
   \<not> truthy_str (Some []) \<and> resolve_url project_reverse (Some []) (Some []) = ''#''"
proof -
  have a: "''about'' \<noteq> [] \<and> project_reverse ''about'' = Some ''/about/''"
    by (simp add: project_reverse_def urlpatterns_def)
  have b: "''non_existent_name'' \<noteq> [] \<and> project_reverse ''non_existent_name'' = None"
    by (simp add: project_reverse_def urlpatterns_def)
  have c: "\<not> truthy_str None \<and> ''/raw/path/'' \<noteq> []" by simp
  have d: "\<not> truthy_str (Some [])" by simp
  from a resolve_url_spec [of "''about''" project_reverse "''/about/''" "Some ''/ignored/path''"]
  have 1: "resolve_url project_reverse (Some ''about'') (Some ''/ignored/path'') = ''/about/''"
    by blast
  from b resolve_url_spec [of "''non_existent_name''" project_reverse _ None]
  have 2: "resolve_url project_reverse (Some ''non_existent_name'') None = ''#''"
    by blast
  from c resolve_url_spec [of _ project_reverse _ _ None "''/raw/path/''"]
  have 3: "resolve_url project_reverse None (Some ''/raw/path/'') = ''/raw/path/''"
    by blast
  from d resolve_url_spec [of _ project_reverse _ "Some []" "Some []"]
  have 4: "resolve_url project_reverse (Some []) (Some []) = ''#''"
    by blast
  from a b c d 1 2 3 4 show ?thesis by blast
qed

section \<open>The store: one read, empty menus\<close>

lemma fetch_items_db [simp]: "snd (fetch_items db mname) = db\<lparr>queries := queries db + 1\<rparr>"
  by (simp add: fetch_items_def)

lemma fetch_items_empty_iff:
  "fst (fetch_items db mname) = [] \<longleftrightarrow>
     (\<forall>r \<in> set (menu_items db). \<forall>m \<in> set (menus db). name m = mname \<longrightarrow> menu_pk m \<noteq> menu_id r)"
proof -
  have "length (fst (fetch_items db mname)) =
      length (filter (\<lambda>r. list_ex (\<lambda>m. menu_pk m = menu_id r \<and> name m = mname) (menus db)) (menu_items db))"
    by (simp add: fetch_items_def)
  then have "fst (fetch_items db mname) = [] \<longleftrightarrow>
      filter (\<lambda>r. list_ex (\<lambda>m. menu_pk m = menu_id r \<and> name m = mname) (menus db)) (menu_items db) = []"
    by (simp only: flip: length_0_conv)
  then show ?thesis
    by (auto simp: filter_empty_conv list_ex_iff)
qed

lemma draw_menu_unfold:
  "draw_menu reverse render db req mname =
     (let rows = fst (fetch_items db mname); db' = db\<lparr>queries := queries db + 1\<rparr> in
      if rows = [] then Some (Inr [], db')
      else (case build_context reverse mname req
                   (normalize_path (case req of None \<Rightarrow> ''/'' | Some r \<Rightarrow> path r)) rows of
              None \<Rightarrow> None
            | Some (Inl e) \<Rightarrow> Some (Inl e, db')
            | Some (Inr mc) \<Rightarrow> Some (Inr (render mc), db')))"
  by (simp add: draw_menu_def Let_def fetch_items_def)

lemma draw_menu_empty:
  assumes "fst (fetch_items db mname) = []"
  shows "draw_menu reverse render db req mname = Some (Inr [], db\<lparr>queries := queries db + 1\<rparr>)"
  using assms by (simp add: draw_menu_unfold)

text \<open>
  Claim C8. When no stored menu has the given name, \<open>draw_menu\<close> returns the empty
  string, whatever the request: no exception is raised, and the store has seen one read.
\<close>

theorem draw_menu_unknown_menu:
  assumes "\<forall>m \<in> set (menus db). name m \<noteq> mname"
  shows "draw_menu reverse render db req mname = Some (Inr [], db\<lparr>queries := queries db + 1\<rparr>)"
proof -
  from assms have "fst (fetch_items db mname) = []"
    by (simp add: fetch_items_empty_iff)
  then show ?thesis by (rule draw_menu_empty)
qed

theorem draw_menu_unknown_menu_witness:
  "list_all (\<lambda>m. name m \<noteq> ''no_such_menu'') (menus test_db) \<and>
   draw_menu project_reverse show_active test_db (Some \<lparr>path = ''/''\<rparr>) ''no_such_menu''
     = Some (Inr [], test_db\<lparr>queries := 1\<rparr>)"
proof -
  have l: "list_all (\<lambda>m. name m \<noteq> ''no_such_menu'') (menus test_db)"
    by (simp add: test_db_def)
  then have h: "\<forall>m \<in> set (menus test_db). name m \<noteq> ''no_such_menu''"
    by (simp add: list_all_iff)
  have q: "queries test_db = 0" by (simp add: test_db_def)
  from draw_menu_unknown_menu [OF h, of project_reverse show_active "Some \<lparr>path = ''/''\<rparr>"] l q
  show ?thesis by simp
qed

text \<open>
  Claim C10. Whenever the rows fetched for a menu name are empty, \<open>draw_menu\<close> returns
  the empty string; so two calls whose fetches are both empty return the same result,
  whether the name is unknown or names a menu without entries
  (\<open>fetch_items_empty_iff\<close> says when the fetch is empty).
\<close>

theorem draw_menu_empty_fetch:
  assumes "fst (fetch_items db1 n1) = []" and "fst (fetch_items db2 n2) = []"
  shows "map_option fst (draw_menu reverse render db1 req1 n1) = Some (Inr []) \<and>
         map_option fst (draw_menu reverse render db2 req2 n2) = Some (Inr [])"
  using assms by (simp add: draw_menu_empty)

theorem draw_menu_empty_fetch_witness:
  "list_all (\<lambda>m. name m \<noteq> ''no_such_menu'') (menus test_db) \<and>
   list_ex (\<lambda>m. name m = ''empty_menu'') (menus test_db) \<and>
   fst (fetch_items test_db ''no_such_menu'') = [] \<and>
   fst (fetch_items test_db ''empty_menu'') = [] \<and>
   map_option fst (draw_menu project_reverse show_active test_db leaf_request ''no_such_menu'')
     = Some (Inr []) \<and>
   map_option fst (draw_menu project_reverse show_active test_db leaf_request ''empty_menu'')
     = Some (Inr [])"
proof -
  have a: "list_all (\<lambda>m. name m \<noteq> ''no_such_menu'') (menus test_db) \<and>
      list_ex (\<lambda>m. name m = ''empty_menu'') (menus test_db)"
    by (simp add: test_db_def)
  have b: "fst (fetch_items test_db ''no_such_menu'') = []"
    by (simp add: fetch_items_def test_db_def mk_item_def)
  have c: "fst (fetch_items test_db ''empty_menu'') = []"
    by (simp add: fetch_items_def test_db_def mk_item_def)
  from draw_menu_empty_fetch [OF b c, of project_reverse show_active leaf_request leaf_request] a b c
  show ?thesis by blast
qed

text \<open>
  Claim C4. A call of \<open>draw_menu\<close> that returns, with a value or with an exception,
  has issued exactly one read against the store and has left the tables as they were;
  and what it returns is a function of the fetched rows: two stores that deliver the
  same rows for the menu name give the same outcome.
\<close>

theorem draw_menu_single_read:
  "(draw_menu reverse render db req mname = Some (res, db') \<longrightarrow>
      queries db' = queries db + 1 \<and> menus db' = menus db \<and> menu_items db' = menu_items db) \<and>
   (fst (fetch_items db mname) = fst (fetch_items db2 mname) \<longrightarrow>
      map_option fst (draw_menu reverse render db req mname) =
      map_option fst (draw_menu reverse render db2 req mname))"
proof -
  have "draw_menu reverse render db req mname = Some (res, db') \<Longrightarrow>
      db' = db\<lparr>queries := queries db + 1\<rparr>"
    by (auto simp: draw_menu_unfold Let_def split: if_splits option.splits sum.splits)
  moreover have "fst (fetch_items db mname) = fst (fetch_items db2 mname) \<Longrightarrow>
      map_option fst (draw_menu reverse render db req mname) =
      map_option fst (draw_menu reverse render db2 req mname)"
    by (simp add: draw_menu_unfold Let_def split: option.splits sum.splits)
  ultimately show ?thesis by auto
qed

theorem draw_menu_single_read_witness:
  "draw_menu project_reverse show_active test_db leaf_request ''main_menu''
     = Some (Inr ''Category 1'', test_db\<lparr>queries := 1\<rparr>) \<and>
   queries (test_db\<lparr>queries := 1\<rparr>) = queries test_db + 1 \<and>
   menus (test_db\<lparr>queries := 1\<rparr>) = menus test_db \<and>
   menu_items (test_db\<lparr>queries := 1\<rparr>) = menu_items test_db \<and>
   fst (fetch_items test_db ''main_menu'') = fst (fetch_items (test_db\<lparr>queries := 7\<rparr>) ''main_menu'') \<and>
   map_option fst (draw_menu project_reverse show_active test_db leaf_request ''main_menu'') =
   map_option fst (draw_menu project_reverse show_active (test_db\<lparr>queries := 7\<rparr>) leaf_request ''main_menu'')"
proof -
  have a: "draw_menu project_reverse show_active test_db leaf_request ''main_menu''
     = Some (Inr ''Category 1'', test_db\<lparr>queries := 1\<rparr>)"
    by code_simp
  have b: "fst (fetch_items test_db ''main_menu'') = fst (fetch_items (test_db\<lparr>queries := 7\<rparr>) ''main_menu'')"
    by (simp add: fetch_items_def)
  from a b draw_menu_single_read [of project_reverse show_active test_db leaf_request "''main_menu''"
      "Inr ''Category 1''" "test_db\<lparr>queries := 1\<rparr>" "test_db\<lparr>queries := 7\<rparr>"]
  show ?thesis by blast
qed

section \<open>The active entry\<close>

lemma active_step_matches:
  "active_step cur it (a, m) =
     (if matches cur it \<and> m < length (norm_url it) then (Some (item_id it), length (norm_url it))
      else (a, m))"
  by (auto simp: active_step_def matches_def startswith_def Let_def)

lemma matches_length_pos: "matches cur it \<Longrightarrow> 0 < length (norm_url it)"
  by (auto simp: matches_def prefix_def)

lemma matches_same_length:
  assumes "matches cur a" "matches cur b" "length (norm_url a) = length (norm_url b)"
  shows "norm_url a = norm_url b"
proof -
  from assms(1) obtain s where s: "cur = norm_url a @ s"
    unfolding matches_def by (blast elim: prefixE)
  from assms(2) obtain t where t: "cur = norm_url b @ t"
    unfolding matches_def by (blast elim: prefixE)
  from s t have "norm_url a @ s = norm_url b @ t" by simp
  with assms(3) show ?thesis by simp
qed

lemma spec_active_id_Nil [simp]: "spec_active_id cur [] = None"
  by (simp add: spec_active_id_def)

lemma spec_active_id_snoc_no_match:
  assumes "\<not> matches cur x"
  shows "spec_active_id cur (xs @ [x]) = spec_active_id cur xs"
proof -
  have "longest_match cur (xs @ [x]) = longest_match cur xs"
    using assms by (auto simp: longest_match_def fun_eq_iff)
  moreover have "\<not> longest_match cur xs x"
    using assms by (simp add: longest_match_def)
  ultimately show ?thesis by (simp add: spec_active_id_def)
qed

lemma spec_active_id_snoc_longer:
  assumes "matches cur x"
    and "\<forall>it \<in> set xs. matches cur it \<longrightarrow> length (norm_url it) < length (norm_url x)"
  shows "spec_active_id cur (xs @ [x]) = Some (item_id x)"
proof -
  have "filter (longest_match cur (xs @ [x])) xs = []"
    using assms by (auto simp: filter_empty_conv longest_match_def)
  moreover have "longest_match cur (xs @ [x]) x"
    using assms by (auto simp: longest_match_def less_imp_le)
  ultimately show ?thesis by (simp add: spec_active_id_def)
qed

lemma spec_active_id_snoc_not_longer:
  assumes "y \<in> set xs" "matches cur y" "length (norm_url x) \<le> length (norm_url y)"
    and "\<forall>it \<in> set xs. matches cur it \<longrightarrow> length (norm_url it) \<le> length (norm_url y)"
  shows "spec_active_id cur (xs @ [x]) = spec_active_id cur xs"
proof -
  have "filter (longest_match cur (xs @ [x])) xs = filter (longest_match cur xs) xs"
  proof (rule filter_cong [OF refl])
    fix it assume "it \<in> set xs"
    show "longest_match cur (xs @ [x]) it = longest_match cur xs it"
      using assms by (auto simp: longest_match_def)
  qed
  moreover have "longest_match cur xs y"
    using assms by (simp add: longest_match_def)
  then have "filter (longest_match cur xs) xs \<noteq> []"
    using assms(1) by (auto simp: filter_empty_conv)
  ultimately show ?thesis
    by (auto simp: spec_active_id_def split: list.splits)
qed

lemma fold_active_step:
  "\<exists>m. fold (active_step cur) xs (None, 0) = (spec_active_id cur xs, m) \<and>
       (\<forall>it \<in> set xs. matches cur it \<longrightarrow> length (norm_url it) \<le> m) \<and>
       (m = 0 \<or> (\<exists>it \<in> set xs. matches cur it \<and> length (norm_url it) = m)) \<and>
       (spec_active_id cur xs = None \<longrightarrow> m = 0)"
  (is "\<exists>m. ?I xs m")
proof (induction xs rule: rev_induct)
  case Nil
  have "?I [] 0" by simp
  then show ?case ..
next
  case (snoc x xs)
  then obtain m where "?I xs m" ..
  then have f: "fold (active_step cur) xs (None, 0) = (spec_active_id cur xs, m)"
    and le: "\<forall>it \<in> set xs. matches cur it \<longrightarrow> length (norm_url it) \<le> m"
    and ex: "m = 0 \<or> (\<exists>it \<in> set xs. matches cur it \<and> length (norm_url it) = m)"
    and none: "spec_active_id cur xs = None \<longrightarrow> m = 0"
    by simp_all
  have step: "fold (active_step cur) (xs @ [x]) (None, 0) =
      active_step cur x (spec_active_id cur xs, m)"
    by (simp add: f)
  consider (skip) "\<not> matches cur x"
    | (longer) "matches cur x" "m < length (norm_url x)"
    | (shorter) "matches cur x" "length (norm_url x) \<le> m"
    by linarith
  then show ?case
  proof cases
    case skip
    then have sp: "spec_active_id cur (xs @ [x]) = spec_active_id cur xs"
      by (rule spec_active_id_snoc_no_match)
    from skip have 1: "fold (active_step cur) (xs @ [x]) (None, 0) = (spec_active_id cur (xs @ [x]), m)"
      unfolding step by (simp add: active_step_matches sp)
    from skip le have 2: "\<forall>it \<in> set (xs @ [x]). matches cur it \<longrightarrow> length (norm_url it) \<le> m"
      by simp
    from ex have 3: "m = 0 \<or> (\<exists>it \<in> set (xs @ [x]). matches cur it \<and> length (norm_url it) = m)"
      by auto
    from none have 4: "spec_active_id cur (xs @ [x]) = None \<longrightarrow> m = 0"
      by (simp add: sp)
    from 1 2 3 4 have "?I (xs @ [x]) m" by blast
    then show ?thesis ..
  next
    case longer
    from le longer(2)
    have lt: "\<forall>it \<in> set xs. matches cur it \<longrightarrow> length (norm_url it) < length (norm_url x)"
      by fastforce
    from longer(1) lt have sp: "spec_active_id cur (xs @ [x]) = Some (item_id x)"
      by (rule spec_active_id_snoc_longer)
    from longer have 1: "fold (active_step cur) (xs @ [x]) (None, 0) =
        (spec_active_id cur (xs @ [x]), length (norm_url x))"
      unfolding step by (simp add: active_step_matches sp)
    from lt
    have 2: "\<forall>it \<in> set (xs @ [x]). matches cur it \<longrightarrow> length (norm_url it) \<le> length (norm_url x)"
      by fastforce
    from longer(1)
    have 3: "length (norm_url x) = 0 \<or>
        (\<exists>it \<in> set (xs @ [x]). matches cur it \<and> length (norm_url it) = length (norm_url x))"
      by simp
    have 4: "spec_active_id cur (xs @ [x]) = None \<longrightarrow> length (norm_url x) = 0"
      by (simp add: sp)
    from 1 2 3 4 have "?I (xs @ [x]) (length (norm_url x))" by blast
    then show ?thesis ..
  next
    case shorter
    with matches_length_pos [of cur x] have m0: "m \<noteq> 0" by linarith
    with ex obtain y where y: "y \<in> set xs" "matches cur y" "length (norm_url y) = m"
      by blast
    from y shorter(2) le have sp: "spec_active_id cur (xs @ [x]) = spec_active_id cur xs"
      by (intro spec_active_id_snoc_not_longer [of y]) simp_all
    from shorter have 1: "fold (active_step cur) (xs @ [x]) (None, 0) = (spec_active_id cur (xs @ [x]), m)"
      unfolding step by (simp add: active_step_matches sp)
    from shorter(2) le have 2: "\<forall>it \<in> set (xs @ [x]). matches cur it \<longrightarrow> length (norm_url it) \<le> m"
      by simp
    from y have 3: "m = 0 \<or> (\<exists>it \<in> set (xs @ [x]). matches cur it \<and> length (norm_url it) = m)"
      by auto
    from none have 4: "spec_active_id cur (xs @ [x]) = None \<longrightarrow> m = 0"
      by (simp add: sp)
    from 1 2 3 4 have "?I (xs @ [x]) m" by blast
    then show ?thesis ..
  qed
qed

lemma find_active: "fst (fold (active_step cur) xs (None, 0)) = spec_active_id cur xs"
  using fold_active_step [of cur xs] by auto

lemma spec_active_id_None_iff:
  "spec_active_id cur xs = None \<longleftrightarrow> (\<forall>it \<in> set xs. \<not> matches cur it)"
proof
  assume n: "spec_active_id cur xs = None"
  from fold_active_step [of cur xs] n
  have "\<forall>it \<in> set xs. matches cur it \<longrightarrow> length (norm_url it) \<le> 0"
    by auto
  then show "\<forall>it \<in> set xs. \<not> matches cur it"
    using matches_length_pos by fastforce
next
  assume "\<forall>it \<in> set xs. \<not> matches cur it"
  then show "spec_active_id cur xs = None"
    by (auto simp: spec_active_id_def longest_match_def filter_empty_conv split: list.splits)
qed

section \<open>Tree assembly\<close>

lemma annotate_fields [simp]:
  "item_id (annotate reverse it) = item_id it"
  "parent_id (annotate reverse it) = parent_id it"
  "sort_order (annotate reverse it) = sort_order it"
  "norm_url (annotate reverse it) = normalize_path (resolve_url reverse (named_url it) (url it))"
  by (simp_all add: annotate_def Let_def)

lemma sort_key_of_annotate [simp]: "sort_key_of (annotate reverse it) = sort_key_of it"
  by (simp add: sort_key_of_def)

lemma by_id_of_Nil [simp]: "by_id_of [] = Map.empty"
  by (simp add: by_id_of_def)

lemma by_id_of_snoc [simp]: "by_id_of (xs @ [x]) = (by_id_of xs)(item_id x \<mapsto> x)"
  by (simp add: by_id_of_def)

lemma dom_by_id_of: "dom (by_id_of xs) = item_id ` set xs"
proof (induction xs rule: rev_induct)
  case Nil
  show ?case by simp
next
  case (snoc x xs)
  have "dom (by_id_of (xs @ [x])) = insert (item_id x) (dom (by_id_of xs))"
    by (simp only: by_id_of_snoc dom_fun_upd option.simps if_False)
  also have "\<dots> = insert (item_id x) (item_id ` set xs)"
    by (simp only: snoc)
  also have "\<dots> = item_id ` set (xs @ [x])"
    by simp
  finally show ?case .
qed

lemma by_id_of_Some: "by_id_of xs c = Some it \<Longrightarrow> it \<in> set xs \<and> item_id it = c"
  by (induction xs rule: rev_induct) (auto split: if_splits)

lemma by_id_of_distinct:
  "distinct (map item_id xs) \<Longrightarrow> it \<in> set xs \<Longrightarrow> by_id_of xs (item_id it) = Some it"
proof (induction xs rule: rev_induct)
  case Nil
  then show ?case by simp
next
  case (snoc x xs)
  show ?case
  proof (cases "it = x")
    case True
    then show ?thesis by simp
  next
    case False
    with snoc.prems have mem: "it \<in> set xs" by simp
    from snoc.prems have d: "distinct (map item_id xs)" and new: "item_id x \<notin> item_id ` set xs"
      by simp_all
    from d mem have "by_id_of xs (item_id it) = Some it"
      by (rule snoc.IH)
    moreover from mem new have "item_id it \<noteq> item_id x"
      by (metis imageI)
    ultimately show ?thesis by simp
  qed
qed

lemma partition_items:
  "fold partition_step xs (Map.empty, []) =
     (\<lambda>p. if filter (is_child_of p) xs = [] then None
           else Some (map item_id (filter (is_child_of p) xs)),
      map item_id (filter is_root xs))"
proof (induction xs rule: rev_induct)
  case Nil
  show ?case by simp
next
  case (snoc x xs)
  let ?C = "\<lambda>p. if filter (is_child_of p) xs = [] then None
           else Some (map item_id (filter (is_child_of p) xs))"
  let ?R = "map item_id (filter is_root xs)"
  have step: "fold partition_step (xs @ [x]) (Map.empty, []) = partition_step x (?C, ?R)"
    by (simp add: snoc)
  show ?case
  proof (cases "truthy_id (parent_id x)")
    case True
    then obtain p where p: "parent_id x = Some p" "p \<noteq> 0"
      by (cases "parent_id x") auto
    then have x: "\<not> is_root x" "\<And>q. is_child_of q x \<longleftrightarrow> q = p"
      by (auto simp: is_root_def is_child_of_def)
    show ?thesis
      unfolding step using p by (auto simp: partition_step_def x fun_eq_iff)
  next
    case False
    then have x: "is_root x" "\<And>q. \<not> is_child_of q x"
      by (cases "parent_id x"; auto simp: is_root_def is_child_of_def)+
    show ?thesis
      unfolding step using False by (auto simp: partition_step_def x fun_eq_iff)
  qed
qed

lemma lookup_all_exact:
  "\<forall>y \<in> set ys. by_id (item_id y) = Some y \<Longrightarrow> lookup_all by_id (map item_id ys) = Inr ys"
  by (induction ys) auto

lemma lookup_all_defined:
  "set rids \<subseteq> dom by_id \<Longrightarrow> \<exists>its. lookup_all by_id rids = Inr its"
  by (induction rids) auto

lemma strict_sorted_keys:
  assumes "sorted (map sort_key_of xs)" "distinct (map item_id xs)"
  shows "sorted_wrt (<) (map sort_key_of (filter P xs))"
proof -
  have "sorted (map sort_key_of (filter P xs))"
    using assms(1) by (rule sorted_filter)
  moreover have "distinct (map sort_key_of (filter P xs))"
  proof -
    have "inj_on sort_key_of (set xs)"
      using assms(2) by (auto simp: inj_on_def sort_key_of_def distinct_map)
    then have "distinct (map sort_key_of xs)"
      using assms(2) by (simp add: distinct_map)
    then show ?thesis by (simp add: distinct_map_filter)
  qed
  ultimately show ?thesis by (simp add: strict_sorted_iff)
qed

section \<open>The walk to the root\<close>

lemma self_and_ancestors_unfold:
  "self_and_ancestors by_id c = insert c (\<Union>p \<in> parent_rel by_id `` {c}. self_and_ancestors by_id p)"
proof (rule set_eqI)
  fix x
  show "x \<in> self_and_ancestors by_id c \<longleftrightarrow>
      x \<in> insert c (\<Union>p \<in> parent_rel by_id `` {c}. self_and_ancestors by_id p)"
  proof
    assume "x \<in> self_and_ancestors by_id c"
    then have "(c, x) \<in> (parent_rel by_id)\<^sup>*"
      by (simp add: self_and_ancestors_def)
    then show "x \<in> insert c (\<Union>p \<in> parent_rel by_id `` {c}. self_and_ancestors by_id p)"
      by (rule converse_rtranclE) (auto simp: self_and_ancestors_def)
  next
    assume "x \<in> insert c (\<Union>p \<in> parent_rel by_id `` {c}. self_and_ancestors by_id p)"
    then show "x \<in> self_and_ancestors by_id c"
      by (auto simp: self_and_ancestors_def intro: converse_rtrancl_into_rtrancl)
  qed
qed

lemma parent_rel_image:
  assumes "by_id c = Some it"
  shows "parent_rel by_id `` {c} =
     (case parent_id it of None \<Rightarrow> {} | Some p \<Rightarrow> if p \<in> dom by_id then {p} else {})"
  using assms by (auto simp: parent_rel_def split: option.splits)

lemmas walk_up_induct = walk_up.raw_induct [rotated 1, consumes 1, case_names step]

lemma walk_up_result:
  assumes "walk_up by_id cur acc = Some r"
  shows "by_id 0 = None \<longrightarrow> (\<forall>s. r = Inr s \<longrightarrow>
           (case cur of
              None \<Rightarrow> s = acc
            | Some c \<Rightarrow> if c = 0 then s = acc
                        else c \<in> dom by_id \<and> s = acc \<union> self_and_ancestors by_id c))"
  using assms
proof (induction rule: walk_up_induct)
  case (step walk_up' by_id cur acc r)
  show ?case
  proof (intro impI allI)
    fix s
    assume z: "by_id 0 = None" and r: "r = Inr s"
    show "case cur of
              None \<Rightarrow> s = acc
            | Some c \<Rightarrow> if c = 0 then s = acc
                        else c \<in> dom by_id \<and> s = acc \<union> self_and_ancestors by_id c"
    proof (cases "truthy_id cur")
      case False
      with step.hyps r show ?thesis
        by (cases cur) auto
    next
      case True
      then obtain c where c: "cur = Some c" "c \<noteq> 0"
        by (cases cur) auto
      from step.hyps True r c obtain it where it: "by_id c = Some it"
        and rec: "walk_up' by_id (parent_id it) (insert c acc) = Some r"
        by (auto split: option.splits)
      from step.IH [OF rec] z r
      have ih: "case parent_id it of
              None \<Rightarrow> s = insert c acc
            | Some p \<Rightarrow> if p = 0 then s = insert c acc
                        else p \<in> dom by_id \<and> s = insert c acc \<union> self_and_ancestors by_id p"
        by simp
      have "s = acc \<union> self_and_ancestors by_id c"
      proof (cases "parent_id it")
        case None
        with ih it show ?thesis
          by (subst self_and_ancestors_unfold) (simp add: parent_rel_image)
      next
        case (Some p)
        show ?thesis
        proof (cases "p = 0")
          case True
          with z have "p \<notin> dom by_id" by auto
          with ih it Some True show ?thesis
            by (subst self_and_ancestors_unfold) (simp add: parent_rel_image)
        next
          case False
          with ih Some have "p \<in> dom by_id" "s = insert c acc \<union> self_and_ancestors by_id p"
            by simp_all
          with it Some show ?thesis
            by (subst self_and_ancestors_unfold) (simp add: parent_rel_image)
        qed
      qed
      with c it show ?thesis by auto
    qed
  qed
qed

lemma walk_up_terminates:
  assumes "wf (R\<inverse>)"
    and "c \<in> dom by_id"
    and closed: "\<And>c it p. by_id c = Some it \<Longrightarrow> parent_id it = Some p \<Longrightarrow> p \<noteq> 0
                   \<Longrightarrow> p \<in> dom by_id \<and> (c, p) \<in> R"
  shows "\<exists>s. walk_up by_id (Some c) acc = Some (Inr s)"
  using assms(1,2)
proof (induction c arbitrary: acc rule: wf_induct_rule)
  case (less c)
  from less.prems obtain it where it: "by_id c = Some it" by auto
  show ?case
  proof (cases "c = 0")
    case True
    then show ?thesis by (subst walk_up.simps) simp
  next
    case False
    then have unfold: "walk_up by_id (Some c) acc = walk_up by_id (parent_id it) (insert c acc)"
      by (subst walk_up.simps) (simp add: it)
    show ?thesis
    proof (cases "truthy_id (parent_id it)")
      case False
      then show ?thesis
        unfolding unfold by (subst walk_up.simps) simp
    next
      case True
      then obtain p where p: "parent_id it = Some p" "p \<noteq> 0"
        by (cases "parent_id it") auto
      from closed [OF it p] have "p \<in> dom by_id" "(p, c) \<in> R\<inverse>" by auto
      then have "\<exists>s. walk_up by_id (Some p) (insert c acc) = Some (Inr s)"
        using less.IH by blast
      then show ?thesis
        unfolding unfold p(1) .
    qed
  qed
qed

lemma walk_up_self_parent_aux:
  assumes "walk_up by_id cur acc = Some r"
  shows "\<not> (\<exists>c it. cur = Some c \<and> by_id c = Some it \<and> parent_id it = Some c \<and> c \<noteq> 0)"
  using assms
proof (induction rule: walk_up_induct)
  case (step walk_up' by_id cur acc r)
  show ?case
  proof
    assume "\<exists>c it. cur = Some c \<and> by_id c = Some it \<and> parent_id it = Some c \<and> c \<noteq> 0"
    then obtain c it where a: "cur = Some c" "by_id c = Some it" "parent_id it = Some c" "c \<noteq> 0"
      by blast
    with step.hyps have "walk_up' by_id (Some c) (insert c acc) = Some r"
      by simp
    from step.IH [OF this] a show False by simp
  qed
qed

lemma walk_up_self_parent:
  assumes "by_id c = Some it" "parent_id it = Some c" "c \<noteq> 0"
  shows "walk_up by_id (Some c) acc = None"
proof (cases "walk_up by_id (Some c) acc")
  case None
  then show ?thesis .
next
  case (Some r)
  from walk_up_self_parent_aux [OF Some] assms show ?thesis by simp
qed

section \<open>The view model\<close>

lemma build_context_unfold:
  "build_context reverse mname req cur rows =
     (let items = map (annotate reverse) rows;
          by_id = by_id_of items;
          active = spec_active_id cur items
      in case (if truthy_id active then walk_up by_id active {} else Some (Inr {})) of
           None \<Rightarrow> None
         | Some (Inl e) \<Rightarrow> Some (Inl e)
         | Some (Inr expanded) \<Rightarrow>
             (case lookup_all by_id (map item_id (filter is_root items)) of
                Inl e \<Rightarrow> Some (Inl e)
              | Inr rts \<Rightarrow>
                  Some (Inr \<lparr>menu_name = mname, items_by_id = by_id, root_items = rts,
                             children_map =
                               (\<lambda>p. if filter (is_child_of p) items = [] then None
                                    else Some (map item_id (filter (is_child_of p) items))),
                             active_id = active,
                             expanded_ids = expanded, request = req\<rparr>)))"
proof -
  obtain m where "fold (active_step cur) (map (annotate reverse) rows) (None, 0) =
      (spec_active_id cur (map (annotate reverse) rows), m)"
    using fold_active_step by blast
  then show ?thesis
    by (simp add: build_context_def partition_items Let_def)
qed

lemma build_context_fields:
  assumes "build_context reverse mname req cur rows = Some (Inr mc)"
  shows "items_by_id mc = by_id_of (map (annotate reverse) rows)"
    and "active_id mc = spec_active_id cur (map (annotate reverse) rows)"
    and "children_map mc = (\<lambda>p. if filter (is_child_of p) (map (annotate reverse) rows) = [] then None
            else Some (map item_id (filter (is_child_of p) (map (annotate reverse) rows))))"
    and "lookup_all (by_id_of (map (annotate reverse) rows))
            (map item_id (filter is_root (map (annotate reverse) rows))) = Inr (root_items mc)"
    and "(if truthy_id (active_id mc) then walk_up (items_by_id mc) (active_id mc) {} else Some (Inr {}))
            = Some (Inr (expanded_ids mc))"
  using assms
  by (auto simp: build_context_unfold Let_def split: option.splits sum.splits if_splits)

lemma returns_contextD: "returns_context r \<Longrightarrow> r = Some (Inr (the_context r))"
  by (auto simp: returns_context_def the_context_def split: option.splits sum.splits)

section \<open>Active entry and expanded set\<close>

lemma fetch_items_sorted: "sorted (map sort_key_of (fst (fetch_items db mname)))"
  by (simp add: fetch_items_def)

lemma spec_active_id_Some:
  assumes "spec_active_id cur xs = Some a"
  shows "\<exists>it \<in> set xs. item_id it = a \<and> longest_match cur xs it"
proof -
  from assms obtain it its where f: "filter (longest_match cur xs) xs = it # its"
    and a: "item_id it = a"
    by (auto simp: spec_active_id_def split: list.splits)
  from f have "it \<in> set (filter (longest_match cur xs) xs)" by simp
  with a show ?thesis by auto
qed

text \<open>
  Claim C1. In the view model that \<open>draw_menu\<close> builds, the active id is the id of the
  first entry, in the order of the fetched rows, whose normalised URL is an absolute
  path, is a prefix of the current path (the bare root only of the root path) and is
  a longest such prefix; it is \<open>None\<close> exactly when no entry matches. Two matching
  entries of equal length have the same normalised URL, so a tie is broken by the
  order of the rows, which \<open>fetch_items\<close> delivers sorted by (sort key, id).
\<close>

theorem active_id_longest_prefix:
  "fst (fold (active_step cur) (map (annotate reverse) rows) (None, 0))
     = spec_active_id cur (map (annotate reverse) rows) \<and>
   (build_context reverse mname req cur rows = Some (Inr mc) \<longrightarrow>
      active_id mc = spec_active_id cur (map (annotate reverse) rows) \<and>
      (active_id mc = None \<longleftrightarrow> (\<forall>it \<in> set (map (annotate reverse) rows). \<not> matches cur it))) \<and>
   (matches cur a \<and> matches cur b \<and> length (norm_url a) = length (norm_url b)
      \<longrightarrow> norm_url a = norm_url b) \<and>
   sorted (map sort_key_of (fst (fetch_items db mname)))"
proof -
  have "build_context reverse mname req cur rows = Some (Inr mc) \<Longrightarrow>
      active_id mc = spec_active_id cur (map (annotate reverse) rows)"
    by (rule build_context_fields(2))
  then show ?thesis
    using spec_active_id_None_iff [of cur "map (annotate reverse) rows"]
      matches_same_length [of cur a b] fetch_items_sorted [of db mname]
      find_active [of cur "map (annotate reverse) rows"]
    by simp
qed

theorem active_id_longest_prefix_witness:
  "tie_result = Some (Inr (the_context tie_result)) \<and>
   active_id (the_context tie_result) = Some 1 \<and>
   spec_active_id ''/blog/y/'' (map (annotate project_reverse) tie_rows) = Some 1 \<and>
   matches ''/blog/y/'' (annotate project_reverse (row 0 1 None ''/blog/'')) \<and>
   matches ''/blog/y/'' (annotate project_reverse (row 0 2 None ''/blog/'')) \<and>
   norm_url (annotate project_reverse (row 0 1 None ''/blog/'')) =
   norm_url (annotate project_reverse (row 0 2 None ''/blog/''))"
proof -
  have r: "build_context project_reverse ''main'' None ''/blog/y/'' tie_rows
      = Some (Inr (the_context tie_result))"
    unfolding tie_result_def [symmetric] by (rule returns_contextD) code_simp
  have a: "active_id (the_context tie_result) = Some 1"
    by code_simp
  have m: "matches ''/blog/y/'' (annotate project_reverse (row 0 1 None ''/blog/'')) \<and>
      matches ''/blog/y/'' (annotate project_reverse (row 0 2 None ''/blog/'')) \<and>
      length (norm_url (annotate project_reverse (row 0 1 None ''/blog/''))) =
      length (norm_url (annotate project_reverse (row 0 2 None ''/blog/'')))"
    by code_simp
  from r a m active_id_longest_prefix [of "''/blog/y/''" project_reverse tie_rows "''main''" None
      "the_context tie_result" "annotate project_reverse (row 0 1 None ''/blog/'')"
      "annotate project_reverse (row 0 2 None ''/blog/'')"]
  show ?thesis
    unfolding tie_result_def [symmetric] by simp
qed

text \<open>
  Claim C2, amended. For rows none of which has id 0, whenever \<open>draw_menu\<close> builds a
  view model, its expanded set is exactly the active id with all its ancestors among
  the entries, and is empty when there is no active id.
\<close>

theorem expanded_ids_ancestors:
  assumes "\<forall>it \<in> set rows. item_id it \<noteq> 0"
    and "build_context reverse mname req cur rows = Some (Inr mc)"
  shows "expanded_ids mc =
     (case active_id mc of None \<Rightarrow> {} | Some a \<Rightarrow> self_and_ancestors (items_by_id mc) a)"
proof (cases "active_id mc")
  case None
  with build_context_fields(5) [OF assms(2)] show ?thesis by simp
next
  case (Some a)
  have "a \<in> dom (items_by_id mc)"
  proof -
    from Some build_context_fields(2) [OF assms(2)]
    have "spec_active_id cur (map (annotate reverse) rows) = Some a" by simp
    then have "a \<in> item_id ` set (map (annotate reverse) rows)"
      using spec_active_id_Some by blast
    then show ?thesis
      unfolding build_context_fields(1) [OF assms(2)] dom_by_id_of .
  qed
  with assms(1) have a0: "a \<noteq> 0"
    by (auto simp: build_context_fields(1) [OF assms(2)] dom_by_id_of)
  have z: "items_by_id mc 0 = None"
  proof -
    from assms(1) have "0 \<notin> item_id ` set (map (annotate reverse) rows)" by auto
    then have "0 \<notin> dom (items_by_id mc)"
      unfolding build_context_fields(1) [OF assms(2)] dom_by_id_of .
    then show ?thesis by blast
  qed
  from build_context_fields(5) [OF assms(2)] Some a0
  have "walk_up (items_by_id mc) (Some a) {} = Some (Inr (expanded_ids mc))" by simp
  from walk_up_result [OF this] z a0 Some show ?thesis by simp
qed

theorem expanded_ids_ancestors_witness:
  "list_all (\<lambda>it. item_id it \<noteq> 0) test_rows \<and>
   leaf_result = Some (Inr (the_context leaf_result)) \<and>
   active_id (the_context leaf_result) = Some 6 \<and>
   expanded_ids (the_context leaf_result) = {2, 5, 6} \<and>
   self_and_ancestors (items_by_id (the_context leaf_result)) 6 = {2, 5, 6}"
proof -
  have l: "list_all (\<lambda>it. item_id it \<noteq> 0) test_rows"
    by code_simp
  then have h: "\<forall>it \<in> set test_rows. item_id it \<noteq> 0"
    by (simp add: list_all_iff)
  have r: "build_context project_reverse ''main_menu'' leaf_request ''/blog/categories/1/'' test_rows
      = Some (Inr (the_context leaf_result))"
    unfolding leaf_result_def [symmetric] by (rule returns_contextD) code_simp
  have a: "active_id (the_context leaf_result) = Some 6"
    by code_simp
  have e: "expanded_ids (the_context leaf_result) = {2, 5, 6}"
    by code_simp
  from expanded_ids_ancestors [OF h r] l r a e show ?thesis
    unfolding leaf_result_def [symmetric] by simp
qed

text \<open>
  Claim C2 as stated fails for an entry with id 0: \<open>if active_id:\<close> reads the id 0 as
  false, so the entry is active and the expanded set is empty.
\<close>

theorem expanded_ids_zero_counterexample:
  "zero_result = Some (Inr (the_context zero_result)) \<and>
   active_id (the_context zero_result) = Some 0 \<and>
   expanded_ids (the_context zero_result) = {} \<and>
   0 \<notin> expanded_ids (the_context zero_result)"
proof -
  have "returns_context zero_result" by code_simp
  then have "zero_result = Some (Inr (the_context zero_result))"
    by (rule returns_contextD)
  moreover have "active_id (the_context zero_result) = Some 0" by code_simp
  moreover have "expanded_ids (the_context zero_result) = {}" by code_simp
  ultimately show ?thesis by simp
qed

section \<open>Termination\<close>

lemma finite_parent_edges: "finite (parent_edges rows)"
  by (auto simp: parent_edges_def split: option.splits)

lemma parent_edges_iff:
  "(c, p) \<in> parent_edges rows \<longleftrightarrow> (\<exists>r \<in> set rows. item_id r = c \<and> parent_id r = Some p \<and> p \<noteq> 0)"
  unfolding parent_edges_def UN_iff
  by (rule bex_cong [OF refl]) (auto split: option.split)

lemma parent_edges_by_id:
  assumes "by_id_of (map (annotate reverse) rows) c = Some it" "parent_id it = Some p" "p \<noteq> 0"
  shows "(c, p) \<in> parent_edges rows"
proof -
  from by_id_of_Some [OF assms(1)]
  have "it \<in> set (map (annotate reverse) rows)" and c: "item_id it = c" by simp_all
  then obtain r where r: "r \<in> set rows" and it: "it = annotate reverse r"
    by (metis (no_types) imageE list.set_map)
  from it c have "item_id r = c" by simp
  moreover from it assms(2) have "parent_id r = Some p" by simp
  ultimately show ?thesis
    unfolding parent_edges_iff using r assms(3) by (intro bexI [of _ r]) simp_all
qed

lemma parents_resolve_by_id:
  assumes "parents_resolve rows"
    and "by_id_of (map (annotate reverse) rows) c = Some it" "parent_id it = Some p" "p \<noteq> 0"
  shows "p \<in> dom (by_id_of (map (annotate reverse) rows))"
proof -
  from by_id_of_Some [OF assms(2)] obtain r where r: "r \<in> set rows" "it = annotate reverse r"
    by auto
  with assms(3) have "parent_id r = Some p" by simp
  with assms(1,4) r(1) have "p \<in> item_id ` set rows"
    by (fastforce simp: parents_resolve_def)
  then have "p \<in> item_id ` set (map (annotate reverse) rows)"
    by (auto simp: image_iff)
  then show ?thesis
    unfolding dom_by_id_of .
qed

lemma build_context_returns:
  assumes "parents_resolve rows" "acyclic (parent_edges rows)"
  shows "\<exists>mc. build_context reverse mname req cur rows = Some (Inr mc)"
proof -
  let ?items = "map (annotate reverse) rows"
  let ?by = "by_id_of ?items"
  let ?active = "spec_active_id cur ?items"
  have wf: "wf ((parent_edges rows)\<inverse>)"
    using finite_parent_edges assms(2) by (rule finite_acyclic_wf_converse)
  have "\<exists>s. (if truthy_id ?active then walk_up ?by ?active {} else Some (Inr {})) = Some (Inr s)"
  proof (cases "truthy_id ?active")
    case False
    then show ?thesis by simp
  next
    case True
    then obtain a where a: "?active = Some a" by (cases ?active) auto
    then have "a \<in> item_id ` set ?items"
      using spec_active_id_Some by blast
    then have "a \<in> dom ?by"
      unfolding dom_by_id_of .
    with wf have "\<exists>s. walk_up ?by (Some a) {} = Some (Inr s)"
    proof (rule walk_up_terminates)
      fix c it p
      assume "?by c = Some it" "parent_id it = Some p" "p \<noteq> 0"
      then show "p \<in> dom ?by \<and> (c, p) \<in> parent_edges rows"
        using parents_resolve_by_id [OF assms(1)] parent_edges_by_id by blast
    qed
    with True a show ?thesis by simp
  qed
  then obtain s where s: "(if truthy_id ?active then walk_up ?by ?active {} else Some (Inr {})) = Some (Inr s)"
    by blast
  have "set (map item_id (filter is_root ?items)) \<subseteq> dom ?by"
    unfolding dom_by_id_of by auto
  then obtain rts where "lookup_all ?by (map item_id (filter is_root ?items)) = Inr rts"
    using lookup_all_defined by blast
  with s show ?thesis
    by (simp add: build_context_unfold Let_def)
qed

text \<open>
  Claim C3, amended. For rows, with whatever URL fields and routes, whose parent
  references each name a row of the list (or are \<open>None\<close> or 0) and form no cycle,
  the view model is built for every current path, and \<open>draw_menu\<close> over a store that
  delivers these rows returns a rendered string after one read.
\<close>

theorem draw_menu_returns:
  assumes "parents_resolve rows" and "acyclic (parent_edges rows)"
  shows "(\<exists>mc. build_context reverse mname req cur rows = Some (Inr mc)) \<and>
         (fst (fetch_items db mname) = rows \<longrightarrow>
            (\<exists>out. draw_menu reverse render db req mname
                      = Some (Inr out, db\<lparr>queries := queries db + 1\<rparr>)))"
proof
  show "\<exists>mc. build_context reverse mname req cur rows = Some (Inr mc)"
    using assms by (rule build_context_returns)
  show "fst (fetch_items db mname) = rows \<longrightarrow>
      (\<exists>out. draw_menu reverse render db req mname = Some (Inr out, db\<lparr>queries := queries db + 1\<rparr>))"
  proof
    assume f: "fst (fetch_items db mname) = rows"
    obtain mc where "build_context reverse mname req
        (normalize_path (case req of None \<Rightarrow> ''/'' | Some r \<Rightarrow> path r)) rows = Some (Inr mc)"
      using build_context_returns [OF assms] by blast
    then show "\<exists>out. draw_menu reverse render db req mname
        = Some (Inr out, db\<lparr>queries := queries db + 1\<rparr>)"
      by (simp add: draw_menu_unfold f Let_def)
  qed
qed

theorem draw_menu_returns_witness:
  "parents_resolve test_rows \<and> acyclic (parent_edges test_rows) \<and>
   fst (fetch_items test_db ''main_menu'') = test_rows \<and>
   returns_context leaf_result \<and>
   draw_menu project_reverse show_active test_db leaf_request ''main_menu''
     = Some (Inr ''Category 1'', test_db\<lparr>queries := 1\<rparr>)"
proof -
  have p: "parents_resolve test_rows" by code_simp
  have e: "parent_edges test_rows = {(5, 2), (6, 5)}" by code_simp
  have a: "acyclic (parent_edges test_rows)"
    unfolding e by (rule acyclicI_order [where f = "\<lambda>i. i"]) auto
  have f: "fst (fetch_items test_db ''main_menu'') = test_rows"
    by (simp add: test_rows_def)
  have d: "draw_menu project_reverse show_active test_db leaf_request ''main_menu''
     = Some (Inr ''Category 1'', test_db\<lparr>queries := 1\<rparr>)" by code_simp
  from draw_menu_returns [OF p a, of project_reverse "''main_menu''" leaf_request
      "''/blog/categories/1/''" test_db show_active]
  have "returns_context leaf_result"
    by (auto simp: leaf_result_def returns_context_def)
  with p a f d show ?thesis by simp
qed

text \<open>
  Claim C3 as stated fails for arbitrary parent references: an active entry whose
  parent belongs to another menu makes \<open>by_id[cur]\<close> raise \<open>KeyError\<close>, and an active
  entry that is its own parent makes the walk of lines 111 to 113 run forever.
\<close>

theorem draw_menu_fails_counterexample:
  "draw_menu project_reverse show_active dangling_db request_a ''main''
     = Some (Inl KeyError, dangling_db\<lparr>queries := 1\<rparr>) \<and>
   draw_menu project_reverse show_active loop_db request_a ''main'' = None"
proof
  show "draw_menu project_reverse show_active dangling_db request_a ''main''
     = Some (Inl KeyError, dangling_db\<lparr>queries := 1\<rparr>)"
    by code_simp
  have rows: "fst (fetch_items loop_db ''main'') = [values_row (mk_item 1 1 (Some 1) ''Self'' ''/a/'' [] 0)]"
    by (simp add: fetch_items_def loop_db_def two_menus_def mk_item_def)
  let ?it = "annotate project_reverse (values_row (mk_item 1 1 (Some 1) ''Self'' ''/a/'' [] 0))"
  have act: "spec_active_id ''/a/'' [?it] = Some 1"
    by code_simp
  have w: "walk_up (by_id_of [?it]) (Some 1) {} = None"
    by (rule walk_up_self_parent [where it = ?it]) (simp_all add: by_id_of_def values_row_def mk_item_def)
  have "build_context project_reverse ''main'' request_a ''/a/''
      [values_row (mk_item 1 1 (Some 1) ''Self'' ''/a/'' [] 0)] = None"
    by (simp add: build_context_unfold act w)
  moreover have "normalize_path (case request_a of None \<Rightarrow> ''/'' | Some r \<Rightarrow> path r) = ''/a/''"
    by code_simp
  ultimately show "draw_menu project_reverse show_active loop_db request_a ''main'' = None"
    by (simp add: draw_menu_unfold rows)
qed

section \<open>Sibling order\<close>

lemma map_by_id_of_distinct:
  assumes "distinct (map item_id xs)" "set es \<subseteq> set xs"
  shows "map (by_id_of xs) (map item_id es) = map Some es"
  using assms(2) by (induction es) (simp_all add: by_id_of_distinct [OF assms(1)])

lemma lookup_all_ids:
  assumes "\<And>c it. by_id c = Some it \<Longrightarrow> item_id it = c"
  shows "lookup_all by_id rids = Inr rts \<Longrightarrow> map item_id rts = rids"
proof (induction rids arbitrary: rts)
  case Nil
  then show ?case by simp
next
  case (Cons rid rids)
  then show ?case
    by (auto simp: assms split: option.splits sum.splits)
qed

text \<open>
  Claim C9. For rows delivered in ascending (sort key, id) order, the root list of the
  view model names the root entries in the delivered order and every children list
  names the children of that parent in the delivered order, so both ascend in
  (sort key, id) and keep the relative order of the rows. When the ids are distinct, as
  primary keys are, the entries that these ids look up are those very rows and the
  order is strict.
\<close>

theorem sibling_order:
  assumes "sorted (map sort_key_of rows)"
    and "build_context reverse mname req cur rows = Some (Inr mc)"
  shows "map item_id (root_items mc) = map item_id (filter is_root (map (annotate reverse) rows)) \<and>
         sorted (map sort_key_of (filter is_root (map (annotate reverse) rows))) \<and>
         (\<forall>p cs. children_map mc p = Some cs \<longrightarrow>
            cs = map item_id (filter (is_child_of p) (map (annotate reverse) rows)) \<and>
            sorted (map sort_key_of (filter (is_child_of p) (map (annotate reverse) rows)))) \<and>
         (distinct (map item_id rows) \<longrightarrow>
            root_items mc = filter is_root (map (annotate reverse) rows) \<and>
            sorted_wrt (<) (map sort_key_of (root_items mc)) \<and>
            (\<forall>p cs. children_map mc p = Some cs \<longrightarrow>
               map (items_by_id mc) cs = map Some (filter (is_child_of p) (map (annotate reverse) rows)) \<and>
               sorted_wrt (<) (map sort_key_of (filter (is_child_of p) (map (annotate reverse) rows)))))"
proof -
  let ?items = "map (annotate reverse) rows"
  have s: "sorted (map sort_key_of ?items)"
    using assms(1) by (simp add: comp_def)
  have srt: "sorted (map sort_key_of (filter P ?items))" for P
    using s by (rule sorted_filter)
  have ids: "map item_id (root_items mc) = map item_id (filter is_root ?items)"
    using build_context_fields(4) [OF assms(2)]
    by (rule lookup_all_ids [rotated]) (simp add: by_id_of_Some)
  have kid_ids: "cs = map item_id (filter (is_child_of p) ?items)"
    if "children_map mc p = Some cs" for p cs
    using that by (simp add: build_context_fields(3) [OF assms(2)] split: if_splits)
  have keyed: "root_items mc = filter is_root ?items \<and>
      sorted_wrt (<) (map sort_key_of (root_items mc)) \<and>
      (\<forall>p cs. children_map mc p = Some cs \<longrightarrow>
         map (items_by_id mc) cs = map Some (filter (is_child_of p) ?items) \<and>
         sorted_wrt (<) (map sort_key_of (filter (is_child_of p) ?items)))"
    if dr: "distinct (map item_id rows)"
  proof -
    have d: "distinct (map item_id ?items)"
      using dr by (simp add: comp_def)
    have strict: "sorted_wrt (<) (map sort_key_of (filter P ?items))" for P
      using s d by (rule strict_sorted_keys)
    have "lookup_all (by_id_of ?items) (map item_id (filter is_root ?items))
        = Inr (filter is_root ?items)"
      by (rule lookup_all_exact) (simp add: by_id_of_distinct [OF d])
    with build_context_fields(4) [OF assms(2)]
    have roots: "root_items mc = filter is_root ?items" by simp
    have kids: "map (items_by_id mc) cs = map Some (filter (is_child_of p) ?items)"
      if "children_map mc p = Some cs" for p cs
    proof -
      have "map (by_id_of ?items) (map item_id (filter (is_child_of p) ?items))
          = map Some (filter (is_child_of p) ?items)"
        using d by (rule map_by_id_of_distinct) simp
      with kid_ids [OF that] show ?thesis
        by (simp only: build_context_fields(1) [OF assms(2)])
    qed
    from roots strict [of is_root] kids strict show ?thesis
      by (simp only: simp_thms) blast
  qed
  from ids srt [of is_root] kid_ids srt keyed show ?thesis
    by (simp only: simp_thms) blast
qed

theorem sibling_order_witness:
  "sorted (map sort_key_of tie_rows) \<and> distinct (map item_id tie_rows) \<and>
   tie_result = Some (Inr (the_context tie_result)) \<and>
   map item_id (root_items (the_context tie_result)) = [1, 2, 3] \<and>
   root_items (the_context tie_result) = filter is_root (map (annotate project_reverse) tie_rows) \<and>
   sorted_wrt (<) (map sort_key_of (root_items (the_context tie_result))) \<and>
   children_map (the_context tie_result) 1 = Some [5, 6, 4] \<and>
   [5, 6, 4] = map item_id (filter (is_child_of 1) (map (annotate project_reverse) tie_rows)) \<and>
   sorted_wrt (<) (map sort_key_of (filter (is_child_of 1) (map (annotate project_reverse) tie_rows)))"
proof -
  have s: "sorted (map sort_key_of tie_rows)" by code_simp
  have d: "distinct (map item_id tie_rows)" by code_simp
  have r: "build_context project_reverse ''main'' None ''/blog/y/'' tie_rows
      = Some (Inr (the_context tie_result))"
    unfolding tie_result_def [symmetric] by (rule returns_contextD) code_simp
  have i: "map item_id (root_items (the_context tie_result)) = [1, 2, 3]" by code_simp
  have c: "children_map (the_context tie_result) 1 = Some [5, 6, 4]" by code_simp
  from sibling_order [OF s r] s d r i c show ?thesis
    unfolding tie_result_def [symmetric] by blast
qed

end
